theory Spec2Isabelle
  imports Main "HOL-Library.Word"
begin

section \<open>Common types\<close>

text \<open>
  The buffer pool of BusTub: \<^verbatim>\<open>src/buffer/clock_replacer.cpp\<close> and
  \<^verbatim>\<open>src/buffer/buffer_pool_manager.cpp\<close>. The headers that declare the classes,
  the type aliases and the disk manager are not part of the sources at hand; what is
  taken from the specification instead is marked as such.

  A frame id indexes the arrays \<^verbatim>\<open>pages_\<close> and \<^verbatim>\<open>rb_\<close>, a page id is a signed integer.
  Reading or writing \<^verbatim>\<open>v[i]\<close> outside the array, dereferencing a null \<^verbatim>\<open>Page *\<close>,
  \<^verbatim>\<open>% 0\<close> and overflow of a signed \<^verbatim>\<open>int\<close> are undefined behaviour in C++; the
  model makes each of them a \<open>fault\<close>.
  A function whose loop may run forever returns an \<open>option\<close> around its result:
  \<open>None\<close> stands for "does not return".
\<close>

type_synonym frame_id_t = nat
type_synonym page_id_t = int

datatype fault = NullPointer | OutOfBounds | DivisionByZero | SignedOverflow

section \<open>The clock replacer\<close>

text \<open>
  Modelled from the spec: the slot type \<^verbatim>\<open>FrameStat\<close> and the members of
  \<^verbatim>\<open>ClockReplacer\<close> are declared in \<^verbatim>\<open>clock_replacer.h\<close>, which is missing. Each
  slot carries \<open>in_replacer\<close> (here \<open>is_in\<close>, the name the code uses) and a small
  non-negative \<open>chance\<close> (\<open>chances\<close>); the replacer has a clock hand and a size, the
  count of slots with \<open>is_in\<close>. The counters are natural numbers: the code decrements
  \<open>chances\<close> only when it is positive, and \<open>real_size_\<close> only for a slot that is in
  the replacer.
\<close>

record FrameStat =
  is_in :: bool
  chances :: nat

record ClockReplacer =
  num_pages :: nat
  clock_hand :: nat
  rb :: "FrameStat list"
  real_size :: nat

text \<open>Modelled from the spec: \<^verbatim>\<open>FrameStat()\<close>, a slot that is not in the replacer.\<close>

definition FrameStat_new :: FrameStat where
  "FrameStat_new = \<lparr>is_in = False, chances = 0\<rparr>"

text \<open>The constructor (lines 18-19).\<close>

definition ClockReplacer_new :: "nat \<Rightarrow> ClockReplacer" where
  "ClockReplacer_new n =
     \<lparr>num_pages = n, clock_hand = 0, rb = replicate n FrameStat_new, real_size = 0\<rparr>"

text \<open>\<^verbatim>\<open>Size\<close> (line 61).\<close>

definition Size :: "ClockReplacer \<Rightarrow> nat" where
  "Size r = real_size r"

text \<open>\<^verbatim>\<open>Pin\<close> (lines 44-50).\<close>

definition Pin :: "frame_id_t \<Rightarrow> ClockReplacer \<Rightarrow> fault + ClockReplacer" where
  "Pin frame_id r =
     (if frame_id < length (rb r) then
        let frame_stat = rb r ! frame_id in
        if is_in frame_stat then
          Inr (r\<lparr>rb := (rb r)[frame_id := frame_stat\<lparr>is_in := False\<rparr>],
                 real_size := real_size r - 1\<rparr>)
        else Inr r
      else Inl OutOfBounds)"

text \<open>\<^verbatim>\<open>Unpin\<close> (lines 52-59).\<close>

definition Unpin :: "frame_id_t \<Rightarrow> ClockReplacer \<Rightarrow> fault + ClockReplacer" where
  "Unpin frame_id r =
     (if frame_id < length (rb r) then
        let frame_stat = rb r ! frame_id in
        if \<not> is_in frame_stat then
          Inr (r\<lparr>rb := (rb r)[frame_id := frame_stat\<lparr>is_in := True, chances := 1\<rparr>],
                 real_size := real_size r + 1\<rparr>)
        else Inr r
      else Inl OutOfBounds)"

text \<open>
  One pass through the body of the \<^verbatim>\<open>while (true)\<close> loop of \<^verbatim>\<open>Victim\<close>
  (lines 29-40): the loop either returns the slot under the hand (\<open>Found\<close>), goes on
  with the hand advanced (\<open>Next\<close>), or hits undefined behaviour (\<open>Fault\<close>).
\<close>

datatype victim_step = Found frame_id_t ClockReplacer | Next ClockReplacer | Fault fault

definition advance_hand :: "ClockReplacer \<Rightarrow> victim_step" where
  "advance_hand r =
     (if num_pages r = 0 then Fault DivisionByZero
      else Next (r\<lparr>clock_hand := (clock_hand r + 1) mod num_pages r\<rparr>))"

definition Victim_body :: "ClockReplacer \<Rightarrow> victim_step" where
  "Victim_body r =
     (if clock_hand r < length (rb r) then
        let frame_stat = rb r ! clock_hand r in
        if is_in frame_stat then
          if chances frame_stat > 0 then
            advance_hand
              (r\<lparr>rb := (rb r)[clock_hand r := frame_stat\<lparr>chances := chances frame_stat - 1\<rparr>]\<rparr>)
          else
            Found (clock_hand r)
              (r\<lparr>rb := (rb r)[clock_hand r := frame_stat\<lparr>is_in := False\<rparr>],
                 real_size := real_size r - 1\<rparr>)
        else advance_hand r
      else Fault OutOfBounds)"

text \<open>The loop itself. It has no exit but the \<^verbatim>\<open>return true\<close> inside the body.\<close>

partial_function (option) Victim_loop ::
  "ClockReplacer \<Rightarrow> (fault + frame_id_t \<times> ClockReplacer) option" where
  "Victim_loop r =
     (case Victim_body r of
        Found frame_id r' \<Rightarrow> Some (Inr (frame_id, r'))
      | Next r' \<Rightarrow> Victim_loop r'
      | Fault e \<Rightarrow> Some (Inl e))"

text \<open>
  \<^verbatim>\<open>Victim\<close> (lines 23-42). The result \<open>None\<close> inside is \<^verbatim>\<open>return false\<close>,
  \<open>Some f\<close> is \<^verbatim>\<open>return true\<close> with \<^verbatim>\<open>*frame_id = f\<close>.
\<close>

definition Victim ::
  "ClockReplacer \<Rightarrow> (fault + frame_id_t option \<times> ClockReplacer) option" where
  "Victim r =
     (if Size r = 0 then Some (Inr (None, r))
      else (case Victim_loop r of
              None \<Rightarrow> None
            | Some (Inl e) \<Rightarrow> Some (Inl e)
            | Some (Inr (frame_id, r')) \<Rightarrow> Some (Inr (Some frame_id, r'))))"

text \<open>
  The same loop with a bound on the number of passes through its body: the result
  is \<open>None\<close> when the loop has not returned within that many passes.
\<close>

fun Victim_within :: "nat \<Rightarrow> ClockReplacer \<Rightarrow> (fault + frame_id_t \<times> ClockReplacer) option" where
  "Victim_within 0 r = None"
| "Victim_within (Suc n) r =
     (case Victim_body r of
        Found frame_id r' \<Rightarrow> Some (Inr (frame_id, r'))
      | Next r' \<Rightarrow> Victim_within n r'
      | Fault e \<Rightarrow> Some (Inl e))"

section \<open>Page frames and the disk manager\<close>

type_synonym page_data = "8 word list"

text \<open>
  Modelled from the spec: the page size and the sentinel \<^verbatim>\<open>INVALID_PAGE_ID\<close> come
  from \<^verbatim>\<open>common/config.h\<close>, which is missing ("page-sized, typically 4 KiB";
  "a distinguished sentinel denotes no page").
\<close>

definition PAGE_SIZE :: nat where
  "PAGE_SIZE = 4096"

definition INVALID_PAGE_ID :: page_id_t where
  "INVALID_PAGE_ID = - 1"

definition zero_data :: page_data where
  "zero_data = replicate PAGE_SIZE 0"

text \<open>
  Modelled from the spec: class \<^verbatim>\<open>Page\<close> is declared in \<^verbatim>\<open>page.h\<close>, which is
  missing. A frame owns a byte buffer, the page id resident in it, a pin count and a
  dirty flag, and is born with pin count 0, clean and holding no page. The pin count
  is a C++ \<^verbatim>\<open>int\<close>, a signed counter of 32 bits ("a 32-bit counter suffices"):
  a word of 32 bits that \<open>sint\<close> reads as two's complement. Decrementing 0 gives
  \<open>- 1\<close>; stepping over either end of the range is signed overflow, which is
  undefined behaviour (a build that wraps around leaves 2147483647 after decrementing
  \<open>INT_MIN\<close>) and a fault here.
\<close>

type_synonym int32_t = "32 word"

definition INT_MIN :: int32_t where
  "INT_MIN = - 2147483648"

definition INT_MAX :: int32_t where
  "INT_MAX = 2147483647"

text \<open>\<^verbatim>\<open>c += 1\<close> and \<^verbatim>\<open>c -= 1\<close> on such a counter.\<close>

definition add_one :: "int32_t \<Rightarrow> fault + int32_t" where
  "add_one c = (if c = INT_MAX then Inl SignedOverflow else Inr (c + 1))"

definition sub_one :: "int32_t \<Rightarrow> fault + int32_t" where
  "sub_one c = (if c = INT_MIN then Inl SignedOverflow else Inr (c - 1))"

record Page =
  page_id :: page_id_t
  pin_count :: int32_t
  is_dirty :: bool
  data :: page_data

definition Page_new :: Page where
  "Page_new = \<lparr>page_id = INVALID_PAGE_ID, pin_count = 0, is_dirty = False, data = zero_data\<rparr>"

text \<open>
  Modelled from the spec: \<^verbatim>\<open>Page::ResetAll\<close> (in the missing \<^verbatim>\<open>page.h\<close>) is the
  spec's Reset: "overwrite resident page id, zero the byte buffer, set pin count to 0,
  clear dirty".
\<close>

definition ResetAll :: "page_id_t \<Rightarrow> Page \<Rightarrow> Page" where
  "ResetAll new_page_id p =
     p\<lparr>page_id := new_page_id, data := zero_data, pin_count := 0, is_dirty := False\<rparr>"

text \<open>
  Modelled from the spec: the disk manager is an external collaborator whose code is
  missing. It allocates page ids monotonically, reads and writes page-sized blocks,
  and marks a page id reusable. The model keeps the next id, the blocks, and the
  sequence of calls it has received, oldest first.
\<close>

datatype disk_call =
    AllocatePageCall
  | DeallocatePageCall page_id_t
  | ReadPageCall page_id_t
  | WritePageCall page_id_t page_data

record DiskManager =
  next_page_id :: page_id_t
  blocks :: "page_id_t \<Rightarrow> page_data"
  calls :: "disk_call list"

definition DiskManager_new :: DiskManager where
  "DiskManager_new = \<lparr>next_page_id = 0, blocks = (\<lambda>_. zero_data), calls = []\<rparr>"

definition AllocatePage :: "DiskManager \<Rightarrow> page_id_t \<times> DiskManager" where
  "AllocatePage d =
     (next_page_id d,
      d\<lparr>next_page_id := next_page_id d + 1, calls := calls d @ [AllocatePageCall]\<rparr>)"

definition DeallocatePage :: "page_id_t \<Rightarrow> DiskManager \<Rightarrow> DiskManager" where
  "DeallocatePage p d = d\<lparr>calls := calls d @ [DeallocatePageCall p]\<rparr>"

definition ReadPage :: "page_id_t \<Rightarrow> DiskManager \<Rightarrow> page_data \<times> DiskManager" where
  "ReadPage p d = (blocks d p, d\<lparr>calls := calls d @ [ReadPageCall p]\<rparr>)"

definition WritePage :: "page_id_t \<Rightarrow> page_data \<Rightarrow> DiskManager \<Rightarrow> DiskManager" where
  "WritePage p bytes d =
     d\<lparr>blocks := (blocks d)(p := bytes), calls := calls d @ [WritePageCall p bytes]\<rparr>"

section \<open>The buffer pool manager\<close>

text \<open>
  The members used by \<^verbatim>\<open>buffer_pool_manager.cpp\<close>. The log manager is stored and
  never used, and is left out. A \<^verbatim>\<open>Page *\<close> is a \<open>frame_id_t option\<close>: \<open>None\<close> is
  \<^verbatim>\<open>nullptr\<close>, \<open>Some f\<close> is \<^verbatim>\<open>&pages_[f]\<close>.
\<close>

record BufferPoolManager =
  pool_size :: nat
  pages :: "Page list"
  replacer :: ClockReplacer
  free_list :: "frame_id_t list"
  page_table :: "page_id_t \<rightharpoonup> frame_id_t"
  disk_manager :: DiskManager

text \<open>The constructor (lines 20-30).\<close>

definition BufferPoolManager_new :: "nat \<Rightarrow> DiskManager \<Rightarrow> BufferPoolManager" where
  "BufferPoolManager_new n d =
     \<lparr>pool_size = n, pages = replicate n Page_new, replacer = ClockReplacer_new n,
      free_list = [0..<n], page_table = Map.empty, disk_manager = d\<rparr>"

text \<open>Dereferencing a \<^verbatim>\<open>Page *\<close>: the frame it points to, or the fault.\<close>

definition deref :: "frame_id_t option \<Rightarrow> Page list \<Rightarrow> fault + frame_id_t" where
  "deref target_page ps =
     (case target_page of
        None \<Rightarrow> Inl NullPointer
      | Some f \<Rightarrow> if f < length ps then Inr f else Inl OutOfBounds)"

text \<open>\<^verbatim>\<open>std::unordered_map::emplace\<close> keeps the old entry when the key is present.\<close>

definition emplace :: "'k \<Rightarrow> 'v \<Rightarrow> ('k \<rightharpoonup> 'v) \<Rightarrow> ('k \<rightharpoonup> 'v)" where
  "emplace k v m = (case m k of None \<Rightarrow> m(k \<mapsto> v) | Some _ \<Rightarrow> m)"

text \<open>
  The victim branch after \<^verbatim>\<open>Victim\<close> has returned true, the same statements in
  \<^verbatim>\<open>FetchPageImpl\<close> (lines 60-67) and \<^verbatim>\<open>NewPageImpl\<close> (lines 128-135): write the
  victim back when it is dirty, and erase its page id from the page table.
\<close>

definition evict_victim :: "frame_id_t \<Rightarrow> BufferPoolManager \<Rightarrow> fault + BufferPoolManager" where
  "evict_victim frame_id s =
     (if frame_id < length (pages s) then
        let target_page = pages s ! frame_id;
            d = (if is_dirty target_page
                 then WritePage (page_id target_page) (data target_page) (disk_manager s)
                 else disk_manager s)
        in Inr (s\<lparr>disk_manager := d,
                  page_table := (page_table s)(page_id target_page := None)\<rparr>)
      else Inl OutOfBounds)"

text \<open>
  The end of \<^verbatim>\<open>FetchPageImpl\<close> (lines 75-77): pin the target and take its frame
  out of the replacer.
\<close>

definition Fetch_pin ::
  "frame_id_t \<Rightarrow> frame_id_t option \<Rightarrow> BufferPoolManager \<Rightarrow>
     fault + frame_id_t option \<times> BufferPoolManager" where
  "Fetch_pin frame_id target_page s =
     (case deref target_page (pages s) of
        Inl e \<Rightarrow> Inl e
      | Inr t \<Rightarrow>
          (case add_one (pin_count (pages s ! t)) of
             Inl e \<Rightarrow> Inl e
           | Inr c \<Rightarrow>
               let ps = (pages s)[t := (pages s ! t)\<lparr>pin_count := c\<rparr>]
               in (case Pin frame_id (replacer s) of
                     Inl e \<Rightarrow> Inl e
                   | Inr r \<Rightarrow> Inr (target_page, s\<lparr>pages := ps, replacer := r\<rparr>))))"

text \<open>
  The common end of the miss branch of \<^verbatim>\<open>FetchPageImpl\<close> (lines 70-72), followed
  by the pinning: reset the target, enter the page in the page table, read its bytes.
\<close>

definition Fetch_load ::
  "page_id_t \<Rightarrow> frame_id_t \<Rightarrow> frame_id_t option \<Rightarrow> BufferPoolManager \<Rightarrow>
     fault + frame_id_t option \<times> BufferPoolManager" where
  "Fetch_load p frame_id target_page s =
     (case deref target_page (pages s) of
        Inl e \<Rightarrow> Inl e
      | Inr t \<Rightarrow>
          let ps = (pages s)[t := ResetAll p (pages s ! t)];
              pt = emplace p frame_id (page_table s);
              (bytes, d) = ReadPage p (disk_manager s);
              ps' = ps[t := (ps ! t)\<lparr>data := bytes\<rparr>]
          in Fetch_pin frame_id target_page
               (s\<lparr>pages := ps', page_table := pt, disk_manager := d\<rparr>))"

text \<open>
  \<^verbatim>\<open>FetchPageImpl\<close> (lines 37-78). In the free-list branch (lines 52-54) the
  code sets \<^verbatim>\<open>frame_id\<close> and leaves \<^verbatim>\<open>target_page\<close> as it was initialised, null.
\<close>

definition FetchPageImpl ::
  "page_id_t \<Rightarrow> BufferPoolManager \<Rightarrow>
     (fault + frame_id_t option \<times> BufferPoolManager) option" where
  "FetchPageImpl p s =
     (case page_table s p of
        Some frame_id \<Rightarrow> Some (Fetch_pin frame_id (Some frame_id) s)
      | None \<Rightarrow>
          if free_list s \<noteq> [] then
            Some (Fetch_load p (last (free_list s)) None
                    (s\<lparr>free_list := butlast (free_list s)\<rparr>))
          else
            (case Victim (replacer s) of
               None \<Rightarrow> None
             | Some (Inl e) \<Rightarrow> Some (Inl e)
             | Some (Inr (None, r)) \<Rightarrow> Some (Inr (None, s\<lparr>replacer := r\<rparr>))
             | Some (Inr (Some frame_id, r)) \<Rightarrow>
                 (case evict_victim frame_id (s\<lparr>replacer := r\<rparr>) of
                    Inl e \<Rightarrow> Some (Inl e)
                  | Inr s' \<Rightarrow> Some (Fetch_load p frame_id (Some frame_id) s'))))"

text \<open>
  \<^verbatim>\<open>UnpinPageImpl\<close> (lines 80-90). The argument \<^verbatim>\<open>is_dirty\<close> is not used by
  the body.
\<close>

definition UnpinPageImpl ::
  "page_id_t \<Rightarrow> bool \<Rightarrow> BufferPoolManager \<Rightarrow> fault + bool \<times> BufferPoolManager" where
  "UnpinPageImpl p dirty s =
     (case page_table s p of
        None \<Rightarrow> Inr (False, s)
      | Some frame_id \<Rightarrow>
          (case Unpin frame_id (replacer s) of
             Inl e \<Rightarrow> Inl e
           | Inr r \<Rightarrow>
               if frame_id < length (pages s) then
                 (case sub_one (pin_count (pages s ! frame_id)) of
                    Inl e \<Rightarrow> Inl e
                  | Inr c \<Rightarrow>
                      Inr (True,
                           s\<lparr>replacer := r,
                             pages := (pages s)[frame_id := (pages s ! frame_id)
                                        \<lparr>pin_count := c\<rparr>]\<rparr>))
               else Inl OutOfBounds))"

text \<open>\<^verbatim>\<open>FlushPageImpl\<close> (lines 92-102).\<close>

definition FlushPageImpl ::
  "page_id_t \<Rightarrow> BufferPoolManager \<Rightarrow> fault + bool \<times> BufferPoolManager" where
  "FlushPageImpl p s =
     (case page_table s p of
        None \<Rightarrow> Inr (False, s)
      | Some frame_id \<Rightarrow>
          if frame_id < length (pages s) then
            Inr (True,
                 s\<lparr>disk_manager := WritePage p (data (pages s ! frame_id)) (disk_manager s),
                   pages := (pages s)[frame_id := (pages s ! frame_id)\<lparr>is_dirty := False\<rparr>]\<rparr>)
          else Inl OutOfBounds)"

text \<open>
  The end of \<^verbatim>\<open>NewPageImpl\<close> (lines 138-141). The result is the returned
  \<^verbatim>\<open>Page *\<close> together with the value stored in \<^verbatim>\<open>*page_id\<close>.
\<close>

definition New_install ::
  "page_id_t \<Rightarrow> frame_id_t \<Rightarrow> frame_id_t option \<Rightarrow> BufferPoolManager \<Rightarrow>
     fault + (frame_id_t \<times> page_id_t) option \<times> BufferPoolManager" where
  "New_install allocated_page_id new_frame_id target_page s =
     (case deref target_page (pages s) of
        Inl e \<Rightarrow> Inl e
      | Inr t \<Rightarrow>
          Inr (Some (t, allocated_page_id),
               s\<lparr>pages := (pages s)[t := ResetAll allocated_page_id (pages s ! t)],
                 page_table := emplace allocated_page_id new_frame_id (page_table s)\<rparr>))"

text \<open>\<^verbatim>\<open>NewPageImpl\<close> (lines 104-142). \<open>None\<close> inside the result is \<^verbatim>\<open>nullptr\<close>.\<close>

definition NewPageImpl ::
  "BufferPoolManager \<Rightarrow>
     (fault + (frame_id_t \<times> page_id_t) option \<times> BufferPoolManager) option" where
  "NewPageImpl s =
     (if free_list s = [] \<and> Size (replacer s) = 0 then Some (Inr (None, s))
      else
        let (allocated_page_id, d) = AllocatePage (disk_manager s);
            s0 = s\<lparr>disk_manager := d\<rparr>
        in if free_list s0 \<noteq> [] then
             Some (New_install allocated_page_id (last (free_list s0))
                     (Some (last (free_list s0)))
                     (s0\<lparr>free_list := butlast (free_list s0)\<rparr>))
           else
             (case Victim (replacer s0) of
                None \<Rightarrow> None
              | Some (Inl e) \<Rightarrow> Some (Inl e)
              | Some (Inr (None, r)) \<Rightarrow> Some (Inr (None, s0\<lparr>replacer := r\<rparr>))
              | Some (Inr (Some new_frame_id, r)) \<Rightarrow>
                  (case evict_victim new_frame_id (s0\<lparr>replacer := r\<rparr>) of
                     Inl e \<Rightarrow> Some (Inl e)
                   | Inr s' \<Rightarrow>
                       Some (New_install allocated_page_id new_frame_id
                               (Some new_frame_id) s'))))"

text \<open>
  \<^verbatim>\<open>DeletePageImpl\<close> (lines 144-165). The body makes no call to the disk manager
  and none to the replacer.
\<close>

definition DeletePageImpl ::
  "page_id_t \<Rightarrow> BufferPoolManager \<Rightarrow> fault + bool \<times> BufferPoolManager" where
  "DeletePageImpl p s =
     (case page_table s p of
        None \<Rightarrow> Inr (True, s)
      | Some frame_id \<Rightarrow>
          if frame_id < length (pages s) then
            if pin_count (pages s ! frame_id) \<noteq> 0 then Inr (False, s)
            else
              Inr (True,
                   s\<lparr>pages := (pages s)[frame_id := ResetAll INVALID_PAGE_ID (pages s ! frame_id)],
                     page_table := (page_table s)(p := None),
                     free_list := free_list s @ [frame_id]\<rparr>)
          else Inl OutOfBounds)"

text \<open>
  A client of the pool: a sequence of calls, each on the state the previous one has
  left, stopping at the first fault.
\<close>

datatype request =
    FetchPage page_id_t
  | UnpinPage page_id_t bool
  | FlushPage page_id_t
  | NewPage
  | DeletePage page_id_t

definition state_of :: "(fault + 'a \<times> BufferPoolManager) \<Rightarrow> fault + BufferPoolManager" where
  "state_of x = (case x of Inl e \<Rightarrow> Inl e | Inr (_, s) \<Rightarrow> Inr s)"

fun call :: "request \<Rightarrow> BufferPoolManager \<Rightarrow> (fault + BufferPoolManager) option" where
  "call (FetchPage p) s = map_option state_of (FetchPageImpl p s)"
| "call (UnpinPage p dirty) s = Some (state_of (UnpinPageImpl p dirty s))"
| "call (FlushPage p) s = Some (state_of (FlushPageImpl p s))"
| "call NewPage s = map_option state_of (NewPageImpl s)"
| "call (DeletePage p) s = Some (state_of (DeletePageImpl p s))"

fun run :: "request list \<Rightarrow> BufferPoolManager \<Rightarrow> (fault + BufferPoolManager) option" where
  "run [] s = Some (Inr s)"
| "run (q # qs) s =
     (case call q s of
        None \<Rightarrow> None
      | Some (Inl e) \<Rightarrow> Some (Inl e)
      | Some (Inr s') \<Rightarrow> run qs s')"

section \<open>Notions used to state the properties\<close>

text \<open>
  The representation invariant of the replacer: the ring has one slot per frame, the
  hand is on a slot, and the size is the number of slots that are in the replacer.
  The constructor establishes it and \<open>Pin\<close>, \<open>Unpin\<close> and \<open>Victim\<close> keep it
  (lemmas \<open>ClockReplacer_new_wf\<close>, \<open>Pin_wf\<close>, \<open>Unpin_wf\<close>, \<open>Victim_wf\<close>).
\<close>

definition replacer_wf :: "ClockReplacer \<Rightarrow> bool" where
  "replacer_wf r \<longleftrightarrow>
     length (rb r) = num_pages r \<and>
     (clock_hand r < num_pages r \<or> (clock_hand r = 0 \<and> num_pages r = 0)) \<and>
     real_size r = length (filter is_in (rb r))"

text \<open>
  The sweep of the hand seen from the state \<open>r\<close> in which \<open>Victim\<close> is called:
  \<open>hand_at r i\<close> is the slot under the hand in pass \<open>i\<close> of the loop (passes are
  counted from 0), \<open>visits r j i\<close> is the number of passes before pass \<open>i\<close> in which
  the hand was on slot \<open>j\<close>, and \<open>chance_at r j i\<close> is the chance left to slot \<open>j\<close>
  after one decrement for each of those passes. The loop \<open>stops_at\<close> pass \<open>i\<close>
  when the slot under the hand is in the replacer and has no chance left.
\<close>

definition hand_at :: "ClockReplacer \<Rightarrow> nat \<Rightarrow> frame_id_t" where
  "hand_at r i = (clock_hand r + i) mod num_pages r"

definition visits :: "ClockReplacer \<Rightarrow> frame_id_t \<Rightarrow> nat \<Rightarrow> nat" where
  "visits r j i = length (filter (\<lambda>t. hand_at r t = j) [0..<i])"

definition chance_at :: "ClockReplacer \<Rightarrow> frame_id_t \<Rightarrow> nat \<Rightarrow> nat" where
  "chance_at r j i = chances (rb r ! j) - visits r j i"

definition stops_at :: "ClockReplacer \<Rightarrow> nat \<Rightarrow> bool" where
  "stops_at r i \<longleftrightarrow> is_in (rb r ! hand_at r i) \<and> chance_at r (hand_at r i) i = 0"

text \<open>
  \<open>swept i r\<close> is the state after \<open>i\<close> passes none of which has returned, and
  \<open>victim_state r k\<close> the state in which the loop returns in pass \<open>k\<close>: the hand is
  on the victim, the victim has left the replacer, the other slots of the replacer have
  lost one chance for each visit, and the size is one less.
\<close>

definition swept :: "nat \<Rightarrow> ClockReplacer \<Rightarrow> ClockReplacer" where
  "swept i r =
     r\<lparr>clock_hand := hand_at r i,
       rb := map (\<lambda>j. if is_in (rb r ! j) then (rb r ! j)\<lparr>chances := chance_at r j i\<rparr>
                       else rb r ! j) [0..<length (rb r)]\<rparr>"

definition victim_state :: "ClockReplacer \<Rightarrow> nat \<Rightarrow> ClockReplacer" where
  "victim_state r k =
     r\<lparr>clock_hand := hand_at r k,
       rb := map (\<lambda>j. if is_in (rb r ! j)
                       then (rb r ! j)\<lparr>is_in := (j \<noteq> hand_at r k), chances := chance_at r j k\<rparr>
                       else rb r ! j) [0..<length (rb r)],
       real_size := real_size r - 1\<rparr>"

text \<open>
  The invariant of the pool that keeps every index in range: one page frame and one
  ring slot per frame id, and only frame ids below \<open>pool_size\<close> in the free list and
  in the page table. The constructor establishes it and every call keeps it (lemmas
  \<open>pool_wf_new\<close>, \<open>call_wf\<close>, \<open>run_wf\<close>).
\<close>

definition pool_wf :: "BufferPoolManager \<Rightarrow> bool" where
  "pool_wf s \<longleftrightarrow>
     length (pages s) = pool_size s \<and>
     replacer_wf (replacer s) \<and> num_pages (replacer s) = pool_size s \<and>
     set (free_list s) \<subseteq> {..<pool_size s} \<and>
     ran (page_table s) \<subseteq> {..<pool_size s}"

section \<open>The loop of \<open>Victim\<close>\<close>

lemma visits_0: "visits r j 0 = 0"
  by (simp add: visits_def)

lemma visits_Suc: "visits r j (Suc i) = visits r j i + (if hand_at r i = j then 1 else 0)"
  by (simp add: visits_def)

lemma hand_at_Suc: "Suc (hand_at r i) mod num_pages r = hand_at r (Suc i)"
  by (simp add: hand_at_def mod_Suc_eq)

lemma hand_at_less: "0 < num_pages r \<Longrightarrow> hand_at r i < num_pages r"
  by (simp add: hand_at_def)

lemma swept_0: "replacer_wf r \<Longrightarrow> swept 0 r = r"
  by (rule ClockReplacer.equality)
     (auto simp: swept_def replacer_wf_def hand_at_def chance_at_def visits_0 intro!: nth_equalityI)

lemma body_next:
  assumes "replacer_wf r" "0 < num_pages r" "\<not> stops_at r i"
  shows "Victim_body (swept i r) = Next (swept (Suc i) r)"
proof -
  let ?p = "hand_at r i"
  have len: "length (rb r) = num_pages r" using assms(1) by (simp add: replacer_wf_def)
  have p: "?p < length (rb r)" using assms(2) len by (simp add: hand_at_less)
  show ?thesis
  proof (cases "is_in (rb r ! ?p)")
    case False
    then show ?thesis using p len assms(2)
      by (auto simp: Victim_body_def swept_def advance_hand_def hand_at_Suc chance_at_def visits_Suc
          intro!: nth_equalityI ClockReplacer.equality)
  next
    case True
    then have pos: "0 < chance_at r ?p i" using assms(3) by (simp add: stops_at_def)
    show ?thesis using p len assms(2) True pos
      by (auto simp: Victim_body_def swept_def advance_hand_def hand_at_Suc chance_at_def visits_Suc
          nth_list_update intro!: nth_equalityI ClockReplacer.equality)
  qed
qed

lemma body_found:
  assumes "replacer_wf r" "0 < num_pages r" "stops_at r k"
  shows "Victim_body (swept k r) = Found (hand_at r k) (victim_state r k)"
proof -
  let ?p = "hand_at r k"
  have len: "length (rb r) = num_pages r" using assms(1) by (simp add: replacer_wf_def)
  have p: "?p < length (rb r)" using assms(2) len by (simp add: hand_at_less)
  show ?thesis using p len assms(2,3)
    by (auto simp: Victim_body_def swept_def victim_state_def stops_at_def nth_list_update
        intro!: nth_equalityI ClockReplacer.equality)
qed

lemma within_swept:
  assumes "replacer_wf r" "0 < num_pages r" "stops_at r k" "\<forall>i<k. \<not> stops_at r i"
  shows "i \<le> k \<Longrightarrow> Victim_within (Suc (k - i)) (swept i r) = Some (Inr (hand_at r k, victim_state r k))"
proof (induction "k - i" arbitrary: i)
  case 0
  then have "i = k" by simp
  then show ?case using body_found[OF assms(1,2,3)] by simp
next
  case (Suc d)
  then have lt: "i < k" and d: "d = k - Suc i" and le: "Suc i \<le> k" by simp_all
  have "Victim_body (swept i r) = Next (swept (Suc i) r)"
    using body_next[OF assms(1,2)] assms(4) lt by simp
  moreover have "Suc (k - i) = Suc (Suc (k - Suc i))" using lt by simp
  ultimately show ?case using Suc.hyps(1)[OF d le] by simp
qed

lemma within_loop: "Victim_within m r = Some y \<Longrightarrow> Victim_loop r = Some y"
proof (induction m arbitrary: r)
  case 0
  then show ?case by simp
next
  case (Suc m)
  show ?case
  proof (cases "Victim_body r")
    case (Found f r')
    then show ?thesis using Suc.prems by (subst Victim_loop.simps) simp
  next
    case (Next r')
    then show ?thesis using Suc by (subst Victim_loop.simps) simp
  next
    case (Fault e)
    then show ?thesis using Suc.prems by (subst Victim_loop.simps) simp
  qed
qed

lemma within_mono: "Victim_within m r = Some y \<Longrightarrow> m \<le> m' \<Longrightarrow> Victim_within m' r = Some y"
proof (induction m arbitrary: r m')
  case 0
  then show ?case by simp
next
  case (Suc m)
  then obtain m'' where m': "m' = Suc m''" and le: "m \<le> m''" by (cases m') auto
  show ?case using Suc.prems(1) Suc.IH[OF _ le] unfolding m'
    by (cases "Victim_body r") auto
qed


lemma visits_card: "visits r j i = card {t. t < i \<and> hand_at r t = j}"
proof -
  have "{t. t < length [0..<i] \<and> hand_at r ([0..<i] ! t) = j} = {t. t < i \<and> hand_at r t = j}"
    by auto
  then show ?thesis by (simp add: visits_def length_filter_conv_card)
qed

lemma hand_at_period: "hand_at r (c * num_pages r + d) = hand_at r d"
proof -
  have "clock_hand r + (c * num_pages r + d) = (clock_hand r + d) + c * num_pages r"
    by simp
  then show ?thesis unfolding hand_at_def by (metis mod_mult_self1)
qed

lemma visits_lower:
  assumes "0 < num_pages r" "hand_at r d = j"
  shows "c \<le> visits r j (c * num_pages r + d)"
proof -
  let ?n = "num_pages r"
  let ?f = "\<lambda>m. d + m * ?n"
  have inj: "inj_on ?f {..<c}" using assms(1) by (auto simp: inj_on_def)
  have hit: "hand_at r (?f m) = j" for m
    using assms(2) by (simp add: hand_at_def add.assoc[symmetric])
  have less: "?f m < c * ?n + d" if "m < c" for m
    using that assms(1) by simp
  have sub: "?f ` {..<c} \<subseteq> {t. t < c * ?n + d \<and> hand_at r t = j}"
    using hit less by auto
  have "card (?f ` {..<c}) \<le> card {t. t < c * ?n + d \<and> hand_at r t = j}"
    by (rule card_mono[OF _ sub]) simp
  then show ?thesis by (simp add: visits_card card_image[OF inj])
qed

lemma some_slot_in:
  assumes "replacer_wf r" "real_size r \<noteq> 0"
  shows "\<exists>j<num_pages r. is_in (rb r ! j)"
proof -
  have "filter is_in (rb r) \<noteq> []" using assms by (auto simp: replacer_wf_def)
  then obtain x where "x \<in> set (rb r)" "is_in x"
    by (auto simp: filter_empty_conv)
  then show ?thesis using assms(1) by (auto simp: in_set_conv_nth replacer_wf_def)
qed

lemma reach_slot:
  assumes "clock_hand r < num_pages r" "j < num_pages r"
  shows "\<exists>d<num_pages r. hand_at r d = j"
proof -
  let ?n = "num_pages r"
  let ?d = "(j + ?n - clock_hand r) mod ?n"
  have "(clock_hand r + ?d) mod ?n = (clock_hand r + (j + ?n - clock_hand r)) mod ?n"
    by (simp add: mod_add_right_eq)
  also have "\<dots> = j" using assms by simp
  finally have "hand_at r ?d = j" by (simp add: hand_at_def)
  moreover have "?d < ?n" using assms by simp
  ultimately show ?thesis by blast
qed

lemma stops_eventually:
  assumes "replacer_wf r" "real_size r \<noteq> 0"
  shows "\<exists>j d. j < num_pages r \<and> is_in (rb r ! j) \<and> d < num_pages r \<and>
           stops_at r (chances (rb r ! j) * num_pages r + d)"
proof -
  obtain j where j: "j < num_pages r" "is_in (rb r ! j)"
    using some_slot_in[OF assms] by blast
  then have n: "0 < num_pages r" by simp
  then have "clock_hand r < num_pages r" using assms(1) by (auto simp: replacer_wf_def)
  then obtain d where d: "d < num_pages r" "hand_at r d = j"
    using reach_slot j(1) by blast
  let ?K = "chances (rb r ! j) * num_pages r + d"
  have "hand_at r ?K = j" using d(2) by (simp add: hand_at_period)
  moreover have "chances (rb r ! j) \<le> visits r j ?K" by (rule visits_lower[OF n d(2)])
  ultimately have "stops_at r ?K" using j(2) by (simp add: stops_at_def chance_at_def)
  then show ?thesis using j d(1) by blast
qed

lemma first_stop:
  assumes "stops_at r K"
  shows "\<exists>k\<le>K. stops_at r k \<and> (\<forall>i<k. \<not> stops_at r i)"
proof -
  let ?k = "LEAST k. stops_at r k"
  have "stops_at r ?k" using assms by (rule LeastI)
  moreover have "?k \<le> K" using assms by (rule Least_le)
  moreover have "\<forall>i<?k. \<not> stops_at r i" using not_less_Least by blast
  ultimately show ?thesis by blast
qed

lemma Victim_loop_returns:
  assumes "replacer_wf r" "stops_at r k" "\<forall>i<k. \<not> stops_at r i" "0 < num_pages r"
  shows "Victim_within (Suc k) r = Some (Inr (hand_at r k, victim_state r k))"
  using within_swept[OF assms(1,4,2,3), of 0] swept_0[OF assms(1)] by simp


lemma Victim_of_within:
  assumes "Size r \<noteq> 0" "Victim_within m r = Some (Inr (v, r'))"
  shows "Victim r = Some (Inr (Some v, r'))"
  using assms(1) within_loop[OF assms(2)] by (simp add: Victim_def)

text \<open>
  With the invariant and a non-empty replacer, the loop returns in the first pass at
  which it stops, with the state \<open>victim_state\<close>.
\<close>

lemma Victim_loop_first:
  assumes "replacer_wf r" "Size r \<noteq> 0"
  shows "\<exists>k. stops_at r k \<and> (\<forall>i<k. \<not> stops_at r i) \<and> 0 < num_pages r \<and>
           Victim_within (Suc k) r = Some (Inr (hand_at r k, victim_state r k))"
proof -
  have size: "real_size r \<noteq> 0" using assms(2) by (simp add: Size_def)
  obtain K where "stops_at r K" using stops_eventually[OF assms(1) size] by blast
  then obtain k where k: "stops_at r k" "\<forall>i<k. \<not> stops_at r i"
    using first_stop by blast
  have n: "0 < num_pages r" using some_slot_in[OF assms(1) size] by auto
  have "Victim_within (Suc k) r = Some (Inr (hand_at r k, victim_state r k))"
    by (rule Victim_loop_returns[OF assms(1) k n])
  then show ?thesis using k n by blast
qed

lemma Victim_total:
  assumes "replacer_wf r"
  shows "\<exists>v r'. Victim r = Some (Inr (v, r'))"
proof (cases "Size r = 0")
  case True
  then show ?thesis by (simp add: Victim_def)
next
  case False
  obtain k where k: "Victim_within (Suc k) r = Some (Inr (hand_at r k, victim_state r k))"
    using Victim_loop_first[OF assms False] by blast
  show ?thesis using Victim_of_within[OF False k] by blast
qed

lemma Victim_in_range:
  assumes "replacer_wf r" "Victim r = Some (Inr (Some f, r'))"
  shows "f < num_pages r \<and> num_pages r' = num_pages r"
proof -
  have nz: "Size r \<noteq> 0" using assms(2) by (auto simp: Victim_def split: if_splits)
  obtain k where k: "Victim_within (Suc k) r = Some (Inr (hand_at r k, victim_state r k))"
      and n: "0 < num_pages r"
    using Victim_loop_first[OF assms(1) nz] by blast
  have "Victim r = Some (Inr (Some (hand_at r k), victim_state r k))"
    by (rule Victim_of_within[OF nz k])
  then have "f = hand_at r k" "r' = victim_state r k" using assms(2) by simp_all
  then show ?thesis using hand_at_less[OF n] by (simp add: victim_state_def)
qed

section \<open>The replacer keeps its invariant\<close>

lemma count_update:
  "i < length xs \<Longrightarrow>
     length (filter P (xs[i := y])) + (if P (xs ! i) then 1 else 0) =
     length (filter P xs) + (if P y then 1 else 0)"
proof (induction xs arbitrary: i)
  case Nil
  then show ?case by simp
next
  case (Cons x xs)
  then show ?case by (cases i) auto
qed

lemma ClockReplacer_new_wf: "replacer_wf (ClockReplacer_new n)"
  by (auto simp: replacer_wf_def ClockReplacer_new_def FrameStat_new_def filter_empty_conv)

lemma Pin_wf:
  assumes "replacer_wf r" "Pin f r = Inr r'"
  shows "replacer_wf r'"
proof (cases "f < length (rb r) \<and> is_in (rb r ! f)")
  case True
  then have "length (filter is_in ((rb r)[f := (rb r ! f)\<lparr>is_in := False\<rparr>])) + 1 =
             length (filter is_in (rb r))"
    using count_update[of f "rb r" is_in "(rb r ! f)\<lparr>is_in := False\<rparr>"] by simp
  then show ?thesis using assms True by (auto simp: Pin_def replacer_wf_def)
next
  case False
  then show ?thesis using assms by (auto simp: Pin_def Let_def split: if_splits)
qed

lemma Unpin_wf:
  assumes "replacer_wf r" "Unpin f r = Inr r'"
  shows "replacer_wf r'"
proof (cases "f < length (rb r) \<and> \<not> is_in (rb r ! f)")
  case True
  then have "length (filter is_in ((rb r)[f := (rb r ! f)\<lparr>is_in := True, chances := 1\<rparr>])) =
             length (filter is_in (rb r)) + 1"
    using count_update[of f "rb r" is_in "(rb r ! f)\<lparr>is_in := True, chances := 1\<rparr>"] by simp
  then show ?thesis using assms True by (auto simp: Unpin_def replacer_wf_def)
next
  case False
  then show ?thesis using assms by (auto simp: Unpin_def Let_def split: if_splits)
qed

lemma body_wf:
  assumes "replacer_wf r"
  shows "Victim_body r = Next r' \<Longrightarrow> replacer_wf r'"
    and "Victim_body r = Found f r' \<Longrightarrow> replacer_wf r'"
proof -
  let ?h = "clock_hand r"
  have dec: "length (filter is_in ((rb r)[?h := (rb r ! ?h)\<lparr>chances := c\<rparr>])) =
             length (filter is_in (rb r))" if "?h < length (rb r)" for c
    using count_update[OF that, of is_in "(rb r ! ?h)\<lparr>chances := c\<rparr>"] by simp
  have out: "length (filter is_in ((rb r)[?h := (rb r ! ?h)\<lparr>is_in := False\<rparr>])) + 1 =
             length (filter is_in (rb r))" if "?h < length (rb r)" "is_in (rb r ! ?h)"
    using count_update[OF that(1), of is_in "(rb r ! ?h)\<lparr>is_in := False\<rparr>"] that(2) by simp
  show "Victim_body r = Next r' \<Longrightarrow> replacer_wf r'"
    using assms dec
    by (auto simp: Victim_body_def advance_hand_def replacer_wf_def Let_def split: if_splits)
  show "Victim_body r = Found f r' \<Longrightarrow> replacer_wf r'"
    using assms out
    by (auto simp: Victim_body_def advance_hand_def replacer_wf_def Let_def split: if_splits)
qed

lemma within_wf:
  "Victim_within m r = Some (Inr (v, r')) \<Longrightarrow> replacer_wf r \<Longrightarrow> replacer_wf r'"
proof (induction m arbitrary: r)
  case 0
  then show ?case by simp
next
  case (Suc m)
  show ?case
  proof (cases "Victim_body r")
    case (Found f r'')
    then show ?thesis using Suc.prems body_wf(2)[OF Suc.prems(2) Found] by simp
  next
    case (Next r'')
    then show ?thesis using Suc.prems Suc.IH[OF _ body_wf(1)[OF Suc.prems(2) Next]] by simp
  next
    case (Fault e)
    then show ?thesis using Suc.prems by simp
  qed
qed

lemma Victim_wf:
  assumes "replacer_wf r" "Victim r = Some (Inr (v, r'))"
  shows "replacer_wf r'"
proof (cases "Size r = 0")
  case True
  then show ?thesis using assms by (simp add: Victim_def)
next
  case False
  obtain k where k: "Victim_within (Suc k) r = Some (Inr (hand_at r k, victim_state r k))"
    using Victim_loop_first[OF assms(1) False] by blast
  then have "Victim r = Some (Inr (Some (hand_at r k), victim_state r k))"
    by (rule Victim_of_within[OF False])
  then have "r' = victim_state r k" using assms(2) by simp
  then show ?thesis using within_wf[OF k assms(1)] by simp
qed

section \<open>Properties of the clock replacer\<close>

lemmas eval_defs = replacer_wf_def stops_at_def hand_at_def chance_at_def visits_def
  victim_state_def Size_def

text \<open>
  Claim C7. In a replacer that satisfies its invariant, \<open>Victim\<close> returns none exactly
  when the size is 0, and changes nothing then. Otherwise it returns: there is a first
  pass \<open>k\<close> of the loop at which the slot under the hand is in the replacer and has
  chance 0, after one decrement for each earlier pass over a slot of the replacer (all
  of which found a positive chance). The slot under the hand at that pass is the
  victim; in the state returned the hand is on the victim, the victim is out of the
  replacer, and the size is one less.
\<close>

theorem Victim_first_zero_chance:
  assumes "replacer_wf r"
  shows "if Size r = 0 then Victim r = Some (Inr (None, r))
         else (\<exists>k. stops_at r k \<and> (\<forall>i<k. \<not> stops_at r i) \<and>
                 Victim r = Some (Inr (Some (hand_at r k), victim_state r k)) \<and>
                 hand_at r k < num_pages r \<and>
                 clock_hand (victim_state r k) = hand_at r k \<and>
                 \<not> is_in (rb (victim_state r k) ! hand_at r k) \<and>
                 Size (victim_state r k) = Size r - 1)"
proof (cases "Size r = 0")
  case True
  then show ?thesis by (simp add: Victim_def)
next
  case False
  obtain k where k: "stops_at r k" "\<forall>i<k. \<not> stops_at r i" "0 < num_pages r"
      "Victim_within (Suc k) r = Some (Inr (hand_at r k, victim_state r k))"
    using Victim_loop_first[OF assms False] by blast
  have len: "length (rb r) = num_pages r" using assms by (simp add: replacer_wf_def)
  have "Victim r = Some (Inr (Some (hand_at r k), victim_state r k))"
    by (rule Victim_of_within[OF False k(4)])
  moreover have "hand_at r k < num_pages r" by (rule hand_at_less[OF k(3)])
  moreover from this have "\<not> is_in (rb (victim_state r k) ! hand_at r k)"
    using len by (simp add: victim_state_def)
  moreover have "clock_hand (victim_state r k) = hand_at r k"
    by (simp add: victim_state_def)
  moreover have "Size (victim_state r k) = Size r - 1"
    by (simp add: victim_state_def Size_def)
  ultimately show ?thesis using False k(1,2) by auto
qed

theorem Victim_first_zero_chance_witness:
  "replacer_wf (ClockReplacer_new 3) \<and>
   Victim (ClockReplacer_new 3) = Some (Inr (None, ClockReplacer_new 3)) \<and>
   replacer_wf \<lparr>num_pages = 3, clock_hand = 1,
         rb = [\<lparr>is_in = True, chances = 1\<rparr>, \<lparr>is_in = False, chances = 0\<rparr>, \<lparr>is_in = True, chances = 0\<rparr>],
         real_size = 2\<rparr> \<and>
   Victim \<lparr>num_pages = 3, clock_hand = 1,
         rb = [\<lparr>is_in = True, chances = 1\<rparr>, \<lparr>is_in = False, chances = 0\<rparr>, \<lparr>is_in = True, chances = 0\<rparr>],
         real_size = 2\<rparr> =
     Some (Inr (Some 2, \<lparr>num_pages = 3, clock_hand = 2,
         rb = [\<lparr>is_in = True, chances = 1\<rparr>, \<lparr>is_in = False, chances = 0\<rparr>, \<lparr>is_in = False, chances = 0\<rparr>],
         real_size = 1\<rparr>))"
proof -
  let ?e = "ClockReplacer_new 3"
  let ?r = "\<lparr>num_pages = 3, clock_hand = 1,
         rb = [\<lparr>is_in = True, chances = 1\<rparr>, \<lparr>is_in = False, chances = 0\<rparr>, \<lparr>is_in = True, chances = 0\<rparr>],
         real_size = 2\<rparr>"
  have we: "replacer_wf ?e" by (simp add: replacer_wf_def ClockReplacer_new_def FrameStat_new_def)
  have wr: "replacer_wf ?r" by (simp add: replacer_wf_def)
  have e: "Victim ?e = Some (Inr (None, ?e))"
    using Victim_first_zero_chance[OF we] by (simp add: Size_def ClockReplacer_new_def)
  obtain k where k: "stops_at ?r k" "\<forall>i<k. \<not> stops_at ?r i"
      "Victim ?r = Some (Inr (Some (hand_at ?r k), victim_state ?r k))"
    using Victim_first_zero_chance[OF wr] by (auto simp: Size_def)
  have s0: "\<not> stops_at ?r 0" by (simp add: eval_defs)
  have s1: "stops_at ?r 1" by (simp add: eval_defs)
  have "k = 1"
  proof -
    have "\<not> 1 < k" using k(2) s1 by blast
    moreover have "k \<noteq> 0"
    proof
      assume "k = 0"
      then show False using k(1) s0 by simp
    qed
    ultimately show ?thesis by simp
  qed
  then have "Victim ?r = Some (Inr (Some (hand_at ?r 1), victim_state ?r 1))" using k(3) by simp
  then show ?thesis using we wr e by (simp add: eval_defs upt_rec)
qed

text \<open>
  Claim C8. In a replacer that satisfies its invariant, has size greater than 0 and
  in which every slot of the replacer has chance at most 1, the loop of \<open>Victim\<close>
  returns within \<open>2 * num_pages\<close> passes through its body, and \<open>Victim\<close> returns
  that result. The witness is a ring of two slots on which the loop needs all four
  passes.
\<close>

theorem Victim_two_sweeps:
  assumes "replacer_wf r" and "0 < Size r"
    and "\<forall>j<num_pages r. is_in (rb r ! j) \<longrightarrow> chances (rb r ! j) \<le> 1"
  shows "\<exists>v r'. Victim_within (2 * num_pages r) r = Some (Inr (v, r')) \<and>
           Victim r = Some (Inr (Some v, r'))"
proof -
  have size: "real_size r \<noteq> 0" using assms(2) by (simp add: Size_def)
  obtain j d where jd: "j < num_pages r" "is_in (rb r ! j)" "d < num_pages r"
      "stops_at r (chances (rb r ! j) * num_pages r + d)"
    using stops_eventually[OF assms(1) size] by blast
  let ?K = "chances (rb r ! j) * num_pages r + d"
  have "chances (rb r ! j) \<le> 1" using assms(3) jd(1,2) by simp
  then have "chances (rb r ! j) * num_pages r \<le> 1 * num_pages r" by (rule mult_le_mono1)
  then have K: "Suc ?K \<le> 2 * num_pages r" using jd(3) by linarith
  obtain k where k: "k \<le> ?K" "stops_at r k" "\<forall>i<k. \<not> stops_at r i"
    using first_stop[OF jd(4)] by blast
  have n: "0 < num_pages r" using jd(1) by simp
  have w: "Victim_within (Suc k) r = Some (Inr (hand_at r k, victim_state r k))"
    by (rule Victim_loop_returns[OF assms(1) k(2,3) n])
  have "Suc k \<le> 2 * num_pages r" using k(1) K by simp
  then have "Victim_within (2 * num_pages r) r = Some (Inr (hand_at r k, victim_state r k))"
    by (rule within_mono[OF w])
  moreover have "Victim r = Some (Inr (Some (hand_at r k), victim_state r k))"
    using assms(2) by (intro Victim_of_within[OF _ w]) simp
  ultimately show ?thesis by blast
qed

theorem Victim_two_sweeps_witness:
  "replacer_wf \<lparr>num_pages = 2, clock_hand = 1,
      rb = [\<lparr>is_in = True, chances = 1\<rparr>, \<lparr>is_in = False, chances = 0\<rparr>], real_size = 1\<rparr> \<and>
   Victim_within 3 \<lparr>num_pages = 2, clock_hand = 1,
      rb = [\<lparr>is_in = True, chances = 1\<rparr>, \<lparr>is_in = False, chances = 0\<rparr>], real_size = 1\<rparr> = None \<and>
   Victim_within 4 \<lparr>num_pages = 2, clock_hand = 1,
      rb = [\<lparr>is_in = True, chances = 1\<rparr>, \<lparr>is_in = False, chances = 0\<rparr>], real_size = 1\<rparr> =
     Some (Inr (0, \<lparr>num_pages = 2, clock_hand = 0,
      rb = [\<lparr>is_in = False, chances = 0\<rparr>, \<lparr>is_in = False, chances = 0\<rparr>], real_size = 0\<rparr>)) \<and>
   Victim \<lparr>num_pages = 2, clock_hand = 1,
      rb = [\<lparr>is_in = True, chances = 1\<rparr>, \<lparr>is_in = False, chances = 0\<rparr>], real_size = 1\<rparr> =
     Some (Inr (Some 0, \<lparr>num_pages = 2, clock_hand = 0,
      rb = [\<lparr>is_in = False, chances = 0\<rparr>, \<lparr>is_in = False, chances = 0\<rparr>], real_size = 0\<rparr>))"
proof -
  let ?r = "\<lparr>num_pages = 2, clock_hand = 1,
      rb = [\<lparr>is_in = True, chances = 1\<rparr>, \<lparr>is_in = False, chances = 0\<rparr>], real_size = 1\<rparr>"
  let ?r' = "\<lparr>num_pages = 2, clock_hand = 0,
      rb = [\<lparr>is_in = False, chances = 0\<rparr>, \<lparr>is_in = False, chances = 0\<rparr>], real_size = 0\<rparr>"
  have w: "replacer_wf ?r" by (simp add: replacer_wf_def)
  have sz: "0 < Size ?r" by (simp add: Size_def)
  have ch: "\<forall>j<num_pages ?r. is_in (rb ?r ! j) \<longrightarrow> chances (rb ?r ! j) \<le> 1"
    by (simp add: less_Suc_eq numeral_2_eq_2)
  have three: "Victim_within 3 ?r = None"
    by (simp add: numeral_3_eq_3 Victim_body_def advance_hand_def)
  have four: "Victim_within 4 ?r = Some (Inr (0, ?r'))"
    by (simp add: eval_nat_numeral Victim_body_def advance_hand_def)
  obtain v r' where v: "Victim_within (2 * num_pages ?r) ?r = Some (Inr (v, r'))"
      "Victim ?r = Some (Inr (Some v, r'))"
    using Victim_two_sweeps[OF w sz ch] by blast
  have "Victim_within (2 * num_pages ?r) ?r = Victim_within 4 ?r" by simp
  then have "v = 0" "r' = ?r'" using v(1) four by simp_all
  then show ?thesis using w three four v(2) by simp
qed

section \<open>The pool keeps every index in range\<close>

text \<open>
  From a state that satisfies \<open>pool_wf\<close> no call runs forever and no call indexes
  outside an array; the faults left are the null pointer of \<open>FetchPageImpl\<close> and the
  overflow of a pin count.
\<close>

lemma Pin_num_pages: "Pin f r = Inr r' \<Longrightarrow> num_pages r' = num_pages r"
  by (auto simp: Pin_def Let_def split: if_splits)

lemma Unpin_num_pages: "Unpin f r = Inr r' \<Longrightarrow> num_pages r' = num_pages r"
  by (auto simp: Unpin_def Let_def split: if_splits)

lemma Pin_ok: "replacer_wf r \<Longrightarrow> f < num_pages r \<Longrightarrow> \<exists>r'. Pin f r = Inr r'"
  by (auto simp: Pin_def Let_def replacer_wf_def)

lemma Unpin_ok: "replacer_wf r \<Longrightarrow> f < num_pages r \<Longrightarrow> \<exists>r'. Unpin f r = Inr r'"
  by (auto simp: Unpin_def Let_def replacer_wf_def)

lemma ran_emplace: "ran (emplace k v m) \<subseteq> insert v (ran m)"
  by (auto simp: emplace_def ran_def split: option.splits if_splits)

lemma ran_erase: "ran (m(k := None)) \<subseteq> ran m"
  by (auto simp: ran_def split: if_splits)

lemma pool_wf_new: "pool_wf (BufferPoolManager_new n d)"
proof -
  have "num_pages (ClockReplacer_new n) = n" by (simp add: ClockReplacer_new_def)
  then show ?thesis using ClockReplacer_new_wf[of n]
    by (auto simp: pool_wf_def BufferPoolManager_new_def)
qed

lemma Fetch_pin_wf:
  assumes "pool_wf s" "f < pool_size s"
  shows "Fetch_pin f (Some f) s = Inl SignedOverflow \<or>
         (\<exists>s'. Fetch_pin f (Some f) s = Inr (Some f, s') \<and> pool_wf s')"
proof -
  obtain r where r: "Pin f (replacer s) = Inr r"
    using Pin_ok[of "replacer s" f] assms by (auto simp: pool_wf_def)
  then show ?thesis using assms Pin_wf[OF _ r] Pin_num_pages[OF r]
    by (simp add: Fetch_pin_def deref_def pool_wf_def add_one_def)
qed

lemma Fetch_pin_fresh_wf:
  assumes "pool_wf s" "f < pool_size s" "pin_count (pages s ! f) = 0"
  shows "\<exists>s'. Fetch_pin f (Some f) s = Inr (Some f, s') \<and> pool_wf s'"
proof -
  have "Fetch_pin f (Some f) s \<noteq> Inl SignedOverflow"
    using assms
    by (auto simp: Fetch_pin_def deref_def add_one_def INT_MAX_def Pin_def Let_def
        split: sum.splits if_splits)
  then show ?thesis using Fetch_pin_wf[OF assms(1,2)] by simp
qed

lemma Fetch_load_wf:
  assumes "pool_wf s" "f < pool_size s"
  shows "\<exists>s'. Fetch_load p f (Some f) s = Inr (Some f, s') \<and> pool_wf s'"
proof -
  let ?s = "s\<lparr>pages := ((pages s)[f := ResetAll p (pages s ! f)])
                  [f := ((pages s)[f := ResetAll p (pages s ! f)] ! f)
                     \<lparr>data := fst (ReadPage p (disk_manager s))\<rparr>],
              page_table := emplace p f (page_table s),
              disk_manager := snd (ReadPage p (disk_manager s))\<rparr>"
  have "pool_wf ?s" using assms ran_emplace[of p f "page_table s"]
    by (auto simp: pool_wf_def)
  moreover have "pin_count (pages ?s ! f) = 0" using assms
    by (simp add: pool_wf_def ResetAll_def)
  ultimately show ?thesis using Fetch_pin_fresh_wf[of ?s f] assms
    by (simp add: Fetch_load_def deref_def pool_wf_def split_beta Let_def)
qed

lemma evict_victim_wf:
  assumes "pool_wf s" "f < pool_size s"
  shows "\<exists>s'. evict_victim f s = Inr s' \<and> pool_wf s' \<and> pool_size s' = pool_size s"
  using assms ran_erase[of "page_table s" "page_id (pages s ! f)"]
  by (auto simp: evict_victim_def pool_wf_def Let_def)

lemma Victim_pool:
  assumes "pool_wf s"
  shows "\<exists>v r. Victim (replacer s) = Some (Inr (v, r)) \<and> pool_wf (s\<lparr>replacer := r\<rparr>) \<and>
           (\<forall>f. v = Some f \<longrightarrow> f < pool_size s)"
proof -
  have w: "replacer_wf (replacer s)" using assms by (simp add: pool_wf_def)
  obtain v r where v: "Victim (replacer s) = Some (Inr (v, r))"
    using Victim_total[OF w] by blast
  have "replacer_wf r" by (rule Victim_wf[OF w v])
  moreover have "num_pages r = num_pages (replacer s)"
  proof (cases v)
    case None
    then show ?thesis using v by (auto simp: Victim_def split: if_splits option.splits sum.splits)
  next
    case (Some f)
    then show ?thesis using Victim_in_range[OF w] v by simp
  qed
  moreover have "\<forall>f. v = Some f \<longrightarrow> f < pool_size s"
    using Victim_in_range[OF w] v assms by (auto simp: pool_wf_def)
  ultimately show ?thesis using v assms by (simp add: pool_wf_def)
qed

lemma FetchPageImpl_wf:
  assumes "pool_wf s"
  shows "FetchPageImpl p s = Some (Inl NullPointer) \<or>
         FetchPageImpl p s = Some (Inl SignedOverflow) \<or>
         (\<exists>h s'. FetchPageImpl p s = Some (Inr (h, s')) \<and> pool_wf s')"
proof (cases "page_table s p")
  case (Some f)
  then have "f < pool_size s" using assms by (auto simp: pool_wf_def ran_def)
  then show ?thesis using Fetch_pin_wf[OF assms, of f] Some by (auto simp: FetchPageImpl_def)
next
  case None
  show ?thesis
  proof (cases "free_list s = []")
    case False
    then show ?thesis using None by (simp add: FetchPageImpl_def Fetch_load_def deref_def)
  next
    case True
    obtain v r where v: "Victim (replacer s) = Some (Inr (v, r))"
        "pool_wf (s\<lparr>replacer := r\<rparr>)" "\<forall>f. v = Some f \<longrightarrow> f < pool_size s"
      using Victim_pool[OF assms] by blast
    show ?thesis
    proof (cases v)
      case None': None
      then show ?thesis using None True v by (simp add: FetchPageImpl_def)
    next
      case (Some f)
      then have f: "f < pool_size (s\<lparr>replacer := r\<rparr>)" using v(3) by simp
      obtain s1 where s1: "evict_victim f (s\<lparr>replacer := r\<rparr>) = Inr s1" "pool_wf s1"
          "pool_size s1 = pool_size s"
        using evict_victim_wf[OF v(2) f] by auto
      have "f < pool_size s1" using f s1(3) by simp
      then show ?thesis using Fetch_load_wf[OF s1(2), of f p] None True v(1) Some s1(1)
        by (auto simp: FetchPageImpl_def)
    qed
  qed
qed

lemma New_install_wf:
  assumes "pool_wf s" "f < pool_size s"
  shows "\<exists>s'. New_install a f (Some f) s = Inr (Some (f, a), s') \<and> pool_wf s'"
  using assms ran_emplace[of a f "page_table s"]
  by (auto simp: New_install_def deref_def pool_wf_def)

lemma NewPageImpl_wf:
  assumes "pool_wf s"
  shows "\<exists>h s'. NewPageImpl s = Some (Inr (h, s')) \<and> pool_wf s'"
proof (cases "free_list s = [] \<and> Size (replacer s) = 0")
  case True
  then show ?thesis using assms by (simp add: NewPageImpl_def)
next
  case False
  let ?a = "fst (AllocatePage (disk_manager s))"
  let ?s0 = "s\<lparr>disk_manager := snd (AllocatePage (disk_manager s))\<rparr>"
  have w0: "pool_wf ?s0" using assms by (simp add: pool_wf_def)
  show ?thesis
  proof (cases "free_list s = []")
    case nonempty: False
    let ?f = "last (free_list s)"
    let ?s1 = "?s0\<lparr>free_list := butlast (free_list s)\<rparr>"
    have "?f \<in> set (free_list s)" using nonempty by simp
    then have f: "?f < pool_size ?s1" using assms by (auto simp: pool_wf_def)
    have "set (butlast (free_list s)) \<subseteq> set (free_list s)"
      by (auto dest: in_set_butlastD)
    then have "pool_wf ?s1" using assms by (auto simp: pool_wf_def)
    then show ?thesis using New_install_wf[of ?s1 ?f ?a] f nonempty
      by (auto simp: NewPageImpl_def split_beta)
  next
    case empty: True
    obtain v r where v: "Victim (replacer ?s0) = Some (Inr (v, r))"
        "pool_wf (?s0\<lparr>replacer := r\<rparr>)" "\<forall>f. v = Some f \<longrightarrow> f < pool_size ?s0"
      using Victim_pool[OF w0] by blast
    show ?thesis
    proof (cases v)
      case None
      then show ?thesis using False empty v by (auto simp: NewPageImpl_def split_beta)
    next
      case (Some f)
      then have f: "f < pool_size (?s0\<lparr>replacer := r\<rparr>)" using v(3) by simp
      obtain s1 where s1: "evict_victim f (?s0\<lparr>replacer := r\<rparr>) = Inr s1" "pool_wf s1"
          "pool_size s1 = pool_size (?s0\<lparr>replacer := r\<rparr>)"
        using evict_victim_wf[OF v(2) f] by blast
      have "f < pool_size s1" using f s1(3) by simp
      then show ?thesis using New_install_wf[OF s1(2), of f ?a] False empty v(1) Some s1(1)
        by (auto simp: NewPageImpl_def split_beta)
    qed
  qed
qed

lemma UnpinPageImpl_wf:
  assumes "pool_wf s"
  shows "UnpinPageImpl p dirty s = Inl SignedOverflow \<or>
         (\<exists>b s'. UnpinPageImpl p dirty s = Inr (b, s') \<and> pool_wf s')"
proof (cases "page_table s p")
  case None
  then show ?thesis using assms by (auto simp: UnpinPageImpl_def)
next
  case (Some f)
  then have f: "f < pool_size s" using assms by (auto simp: pool_wf_def ran_def)
  then obtain r where r: "Unpin f (replacer s) = Inr r"
    using Unpin_ok[of "replacer s" f] assms by (auto simp: pool_wf_def)
  then show ?thesis using assms f Some Unpin_wf[OF _ r] Unpin_num_pages[OF r]
    by (auto simp: UnpinPageImpl_def pool_wf_def sub_one_def)
qed

lemma FlushPageImpl_wf:
  assumes "pool_wf s"
  shows "\<exists>b s'. FlushPageImpl p s = Inr (b, s') \<and> pool_wf s'"
proof (cases "page_table s p")
  case None
  then show ?thesis using assms by (auto simp: FlushPageImpl_def)
next
  case (Some f)
  then have "f < pool_size s" using assms by (auto simp: pool_wf_def ran_def)
  then show ?thesis using assms Some by (auto simp: FlushPageImpl_def pool_wf_def)
qed

lemma DeletePageImpl_wf:
  assumes "pool_wf s"
  shows "\<exists>b s'. DeletePageImpl p s = Inr (b, s') \<and> pool_wf s'"
proof (cases "page_table s p")
  case None
  then show ?thesis using assms by (auto simp: DeletePageImpl_def)
next
  case (Some f)
  then have "f < pool_size s" using assms by (auto simp: pool_wf_def ran_def)
  then show ?thesis using assms Some ran_erase[of "page_table s" p]
    by (auto simp: DeletePageImpl_def pool_wf_def)
qed

lemma call_wf:
  assumes "pool_wf s"
  shows "call q s = Some (Inl NullPointer) \<or> call q s = Some (Inl SignedOverflow) \<or>
         (\<exists>s'. call q s = Some (Inr s') \<and> pool_wf s')"
proof (cases q)
  case (FetchPage p)
  then show ?thesis using FetchPageImpl_wf[OF assms, of p] by (auto simp: state_of_def)
next
  case (UnpinPage p d)
  then show ?thesis using UnpinPageImpl_wf[OF assms, of p d] by (auto simp: state_of_def)
next
  case (FlushPage p)
  then show ?thesis using FlushPageImpl_wf[OF assms, of p] by (auto simp: state_of_def)
next
  case NewPage
  then show ?thesis using NewPageImpl_wf[OF assms] by (auto simp: state_of_def)
next
  case (DeletePage p)
  then show ?thesis using DeletePageImpl_wf[OF assms, of p] by (auto simp: state_of_def)
qed

lemma run_wf:
  "pool_wf s \<Longrightarrow>
     run qs s = Some (Inl NullPointer) \<or> run qs s = Some (Inl SignedOverflow) \<or>
     (\<exists>s'. run qs s = Some (Inr s') \<and> pool_wf s')"
proof (induction qs arbitrary: s)
  case Nil
  then show ?case by simp
next
  case (Cons q qs)
  from call_wf[OF Cons.prems, of q] consider
      "call q s = Some (Inl NullPointer)" | "call q s = Some (Inl SignedOverflow)"
    | s' where "call q s = Some (Inr s')" "pool_wf s'"
    by blast
  then show ?case
  proof cases
    case 1
    then show ?thesis by simp
  next
    case 2
    then show ?thesis by simp
  next
    case 3
    then show ?thesis using Cons.IH[of s'] by simp
  qed
qed

lemma pool_wf_resident:
  assumes "pool_wf s" "page_table s p = Some f"
  shows "f < length (pages s) \<and> f < length (rb (replacer s))"
  using assms by (auto simp: pool_wf_def replacer_wf_def ran_def)

section \<open>Properties of the buffer pool manager\<close>

lemmas pool_defs = FetchPageImpl_def NewPageImpl_def UnpinPageImpl_def DeletePageImpl_def
  FlushPageImpl_def Fetch_load_def Fetch_pin_def New_install_def evict_victim_def deref_def
  emplace_def state_of_def BufferPoolManager_new_def Page_new_def ResetAll_def
  ClockReplacer_new_def FrameStat_new_def Pin_def Unpin_def Size_def Victim_def
  Victim_body_def advance_hand_def add_one_def sub_one_def INT_MIN_def INT_MAX_def
  DiskManager_new_def AllocatePage_def ReadPage_def WritePage_def

text \<open>
  What the bodies leave untouched, for every state and argument: a miss of
  \<open>FetchPageImpl\<close> with a free frame dereferences the null \<^verbatim>\<open>target_page\<close>,
  \<open>UnpinPageImpl\<close> changes no dirty flag, \<open>NewPageImpl\<close> hands out a frame with
  pin count 0, and \<open>DeletePageImpl\<close> changes neither the disk manager nor the replacer.
\<close>

lemma FetchPage_free_list_faults:
  "page_table s p = None \<Longrightarrow> free_list s \<noteq> [] \<Longrightarrow> FetchPageImpl p s = Some (Inl NullPointer)"
  by (simp add: FetchPageImpl_def Fetch_load_def deref_def)

lemma UnpinPageImpl_keeps_dirty:
  "UnpinPageImpl p dirty s = Inr (b, s') \<Longrightarrow> map is_dirty (pages s') = map is_dirty (pages s)"
  by (auto simp: UnpinPageImpl_def map_update list_update_same_conv
      split: option.splits sum.splits if_splits)

lemma NewPageImpl_pin_count:
  "NewPageImpl s = Some (Inr (Some (f, p), s')) \<Longrightarrow> pin_count (pages s' ! f) = 0"
  by (auto simp: NewPageImpl_def New_install_def deref_def ResetAll_def evict_victim_def
      Let_def split_beta split: if_splits option.splits sum.splits prod.splits)

lemma DeletePageImpl_disk:
  "DeletePageImpl p s = Inr (b, s') \<Longrightarrow> disk_manager s' = disk_manager s \<and> replacer s' = replacer s"
  by (auto simp: DeletePageImpl_def split: option.splits if_splits)

text \<open>
  Claim C1 says that \<open>FetchPage\<close> of a page that is not resident, with a free frame at
  hand, loads the page into the tail frame of the free list, pins it and returns it
  without dereferencing an invalid handle. The code does not: on a new pool of one
  frame, whose free list is \<open>[0]\<close>, \<open>FetchPageImpl 0\<close> pops frame 0, leaves
  \<^verbatim>\<open>target_page\<close> null and dereferences it in \<^verbatim>\<open>target_page->ResetAll(page_id)\<close>.
\<close>

theorem FetchPage_free_frame_null:
  "FetchPageImpl 0 (BufferPoolManager_new 1 DiskManager_new) = Some (Inl NullPointer)"
  by (simp add: pool_defs)

text \<open>
  Claim C2 says that between calls a frame with pin count above 0 is never in the
  replacer, so that a pinned page is never chosen as victim. The code does not keep
  this: \<open>UnpinPageImpl\<close> calls \<open>Unpin\<close> whatever the pin count. On a pool of one
  frame, after \<open>NewPage\<close> (page 0), two \<open>FetchPage 0\<close> and one \<open>UnpinPage 0\<close>, frame 0
  has pin count 1 and is in the replacer, and the next \<open>NewPage\<close> evicts page 0 from
  it.
\<close>

theorem Unpin_leaves_pinned_frame_in_replacer:
  "case run [NewPage, FetchPage 0, FetchPage 0, UnpinPage 0 False]
          (BufferPoolManager_new 1 DiskManager_new) of
     Some (Inr s) \<Rightarrow>
       page_table s 0 = Some 0 \<and> pin_count (pages s ! 0) = 1 \<and> is_in (rb (replacer s) ! 0) \<and>
       (case NewPageImpl s of
          Some (Inr (Some (f, p), s')) \<Rightarrow> f = 0 \<and> p = 1 \<and> page_table s' 0 = None
        | _ \<Rightarrow> False)
   | _ \<Rightarrow> False"
  by (simp add: pool_defs Victim_loop.simps)

text \<open>
  Claim C3 says that \<open>UnpinPage\<close> of a resident page ORs \<^verbatim>\<open>is_dirty\<close> into the dirty
  flag of the frame. The code does not use the argument: on a pool of one frame, after
  \<open>NewPage\<close> (page 0) and \<open>UnpinPage 0 True\<close>, the frame of page 0 is still clean, and
  the next \<open>NewPage\<close> evicts page 0 with no \<open>WritePage\<close>: the disk manager has
  received two \<open>AllocatePage\<close> calls and nothing else.
\<close>

theorem Unpin_ignores_is_dirty:
  "case run [NewPage, UnpinPage 0 True] (BufferPoolManager_new 1 DiskManager_new) of
     Some (Inr s) \<Rightarrow>
       page_table s 0 = Some 0 \<and> \<not> is_dirty (pages s ! 0) \<and>
       (case NewPageImpl s of
          Some (Inr (Some (f, p), s')) \<Rightarrow>
            f = 0 \<and> calls (disk_manager s') = [AllocatePageCall, AllocatePageCall]
        | _ \<Rightarrow> False)
   | _ \<Rightarrow> False"
  by (simp add: pool_defs Victim_loop.simps)

text \<open>
  Claim C4 says that the frame returned by a successful \<open>NewPage\<close> has pin count at
  least 1. The code does not pin it: \<open>NewPageImpl\<close> on a new pool of one frame
  returns frame 0 with page 0 in it and pin count 0.
\<close>

theorem NewPage_returns_unpinned:
  "case NewPageImpl (BufferPoolManager_new 1 DiskManager_new) of
     Some (Inr (Some (f, p), s)) \<Rightarrow>
       f = 0 \<and> p = 0 \<and> page_table s 0 = Some 0 \<and> pin_count (pages s ! f) = 0
   | _ \<Rightarrow> False"
  by (simp add: pool_defs)

text \<open>
  Claim C5 says that every \<open>DeletePage\<close> calls \<open>DeallocatePage\<close> of the disk manager.
  The code never calls it: \<open>DeletePageImpl 0\<close> on a new pool returns true and the
  disk manager has received no call at all.
\<close>

theorem DeletePage_no_deallocate:
  "case DeletePageImpl 0 (BufferPoolManager_new 1 DiskManager_new) of
     Inr (b, s) \<Rightarrow> b \<and> calls (disk_manager s) = []
   | _ \<Rightarrow> False"
  by (simp add: pool_defs)

text \<open>
  Claim C6 says that a successful \<open>DeletePage\<close> of a resident page with pin count 0
  takes the frame out of the replacer before it pushes it on the free list, so that
  no frame is in the free list and in the replacer at once. The code does not touch
  the replacer: on a pool of one frame, after \<open>NewPage\<close> (page 0), \<open>FetchPage 0\<close> and
  \<open>UnpinPage 0\<close>, page 0 is resident with pin count 0; \<open>DeletePageImpl 0\<close> returns
  true, and frame 0 is then in the free list and still in the replacer, whose size
  is 1.
\<close>

theorem DeletePage_leaves_frame_in_replacer:
  "case run [NewPage, FetchPage 0, UnpinPage 0 False] (BufferPoolManager_new 1 DiskManager_new) of
     Some (Inr s) \<Rightarrow>
       page_table s 0 = Some 0 \<and> pin_count (pages s ! 0) = 0 \<and>
       (case DeletePageImpl 0 s of
          Inr (b, s') \<Rightarrow>
            b \<and> free_list s' = [0] \<and> page_table s' 0 = None \<and>
            is_in (rb (replacer s') ! 0) \<and> Size (replacer s') = 1 \<and>
            calls (disk_manager s') = calls (disk_manager s)
        | _ \<Rightarrow> False)
   | _ \<Rightarrow> False"
  by (simp add: pool_defs)

text \<open>
  Claim C9. When the free list is empty and the size of the replacer is 0,
  \<open>NewPage\<close> returns none, and so does \<open>FetchPage\<close> of any page that is not
  resident; the state returned is the state given, so the page table, the free list,
  the frames, the replacer and the disk manager (with the calls it has received, hence
  no \<open>AllocatePage\<close>) are unchanged. The witness is the pool of one frame whose only
  frame is pinned.
\<close>

theorem exhausted_pool_unchanged:
  assumes "free_list s = []" and "Size (replacer s) = 0"
  shows "NewPageImpl s = Some (Inr (None, s)) \<and>
         (\<forall>p. page_table s p = None \<longrightarrow> FetchPageImpl p s = Some (Inr (None, s)))"
  using assms by (simp add: NewPageImpl_def FetchPageImpl_def Victim_def)

theorem exhausted_pool_unchanged_witness:
  "case run [NewPage, FetchPage 0] (BufferPoolManager_new 1 DiskManager_new) of
     Some (Inr s) \<Rightarrow>
       free_list s = [] \<and> Size (replacer s) = 0 \<and> pin_count (pages s ! 0) = 1 \<and>
       page_table s 7 = None \<and>
       NewPageImpl s = Some (Inr (None, s)) \<and> FetchPageImpl 7 s = Some (Inr (None, s))
   | _ \<Rightarrow> False"
proof -
  obtain s where s: "run [NewPage, FetchPage 0] (BufferPoolManager_new 1 DiskManager_new) = Some (Inr s)"
    and h: "free_list s = []" "Size (replacer s) = 0" "page_table s 7 = None"
      "pin_count (pages s ! 0) = 1"
    by (simp add: pool_defs)
  have "NewPageImpl s = Some (Inr (None, s)) \<and> FetchPageImpl 7 s = Some (Inr (None, s))"
    using exhausted_pool_unchanged[OF h(1,2)] h(3) by simp
  then show ?thesis using s h by simp
qed

text \<open>
  The pin count as a signed number: away from \<open>INT_MIN\<close> the decrement takes one off
  its value. A run of \<open>UnpinPage\<close> calls on a resident page takes the pin count down
  one by one as long as it stays in the range of the counter, so that \<open>NewPage\<close> and
  \<open>2^31\<close> calls of \<open>UnpinPage\<close> leave the pin count of page 0 at \<open>INT_MIN\<close>.
\<close>

lemma sint_INT_MIN: "sint INT_MIN = - 2147483648"
  by (simp add: INT_MIN_def)

lemma INT_MIN_iff: "c = INT_MIN \<longleftrightarrow> sint c = - 2147483648"
proof
  assume "c = INT_MIN"
  then show "sint c = - 2147483648" by (simp add: sint_INT_MIN)
next
  assume "sint c = - 2147483648"
  then have "sint c = sint INT_MIN" by (simp add: sint_INT_MIN)
  then show "c = INT_MIN" by (rule signed_word_eqI)
qed

lemma sint_sub_one:
  assumes "c \<noteq> INT_MIN"
  shows "sint (c - 1) = sint c - 1"
proof -
  have ne: "sint c \<noteq> - 2147483648" using assms by (simp add: INT_MIN_iff)
  have "- 2147483648 \<le> sint c" "sint c < 2147483648"
    using sint_ge[of c] sint_lt[of c] by simp_all
  then have "- 2147483648 \<le> sint c - 1" "sint c - 1 < 2147483648" using ne by simp_all
  then have "signed_take_bit 31 (sint c - 1) = sint c - 1"
    by (intro signed_take_bit_int_eq_self) simp_all
  then show ?thesis by (simp add: sint_word_ariths)
qed

lemma run_append:
  "run (qs @ qs') s =
     (case run qs s of None \<Rightarrow> None | Some (Inl e) \<Rightarrow> Some (Inl e) | Some (Inr s') \<Rightarrow> run qs' s')"
  by (induction qs arbitrary: s) (auto split: option.splits sum.splits)

lemma UnpinPage_repeat:
  assumes "page_table s p = Some f" "f < length (pages s)" "f < length (rb (replacer s))"
    and "is_in (rb (replacer s) ! f)"
    and "int n \<le> sint (pin_count (pages s ! f)) + 2147483648"
  shows "run (replicate n (UnpinPage p dirty)) s =
           Some (Inr (s\<lparr>pages := (pages s)[f := (pages s ! f)
                           \<lparr>pin_count := pin_count (pages s ! f) - of_nat n\<rparr>]\<rparr>))"
  using assms
proof (induction n arbitrary: s)
  case 0
  then show ?case by (simp add: list_update_same_conv)
next
  case (Suc n)
  let ?c = "pin_count (pages s ! f)"
  let ?s = "s\<lparr>pages := (pages s)[f := (pages s ! f)\<lparr>pin_count := ?c - 1\<rparr>]\<rparr>"
  have "sint ?c \<noteq> - 2147483648" using Suc.prems(5) by simp
  then have ne: "?c \<noteq> INT_MIN" by (simp add: INT_MIN_iff)
  have step: "call (UnpinPage p dirty) s = Some (Inr ?s)"
    using Suc.prems(1-4) ne
    by (simp add: UnpinPageImpl_def Unpin_def sub_one_def state_of_def)
  have "int n \<le> sint (pin_count (pages ?s ! f)) + 2147483648"
    using Suc.prems(2,5) sint_sub_one[OF ne] by simp
  then have "run (replicate n (UnpinPage p dirty)) ?s =
           Some (Inr (?s\<lparr>pages := (pages ?s)[f := (pages ?s ! f)
                           \<lparr>pin_count := pin_count (pages ?s ! f) - of_nat n\<rparr>]\<rparr>))"
    using Suc.prems(1-4) by (intro Suc.IH) simp_all
  then show ?case using step Suc.prems(2) by (simp add: diff_diff_eq)
qed

lemma UnpinPage_INT_MIN_reachable:
  "run (NewPage # replicate 2147483648 (UnpinPage 0 False))
       (BufferPoolManager_new 1 DiskManager_new) =
     Some (Inr \<lparr>pool_size = 1,
                 pages = [\<lparr>page_id = 0, pin_count = INT_MIN, is_dirty = False, data = zero_data\<rparr>],
                 replacer = \<lparr>num_pages = 1, clock_hand = 0,
                              rb = [\<lparr>is_in = True, chances = 1\<rparr>], real_size = 1\<rparr>,
                 free_list = [], page_table = [0 \<mapsto> 0],
                 disk_manager = \<lparr>next_page_id = 1, blocks = (\<lambda>_. zero_data),
                                  calls = [AllocatePageCall]\<rparr>\<rparr>)"
proof -
  let ?s0 = "BufferPoolManager_new 1 DiskManager_new"
  let ?s2 = "\<lparr>pool_size = 1,
                 pages = [\<lparr>page_id = 0, pin_count = - 1, is_dirty = False, data = zero_data\<rparr>],
                 replacer = \<lparr>num_pages = 1, clock_hand = 0,
                              rb = [\<lparr>is_in = True, chances = 1\<rparr>], real_size = 1\<rparr>,
                 free_list = [], page_table = [0 \<mapsto> (0::nat)],
                 disk_manager = \<lparr>next_page_id = 1, blocks = (\<lambda>_. zero_data),
                                  calls = [AllocatePageCall]\<rparr>\<rparr>"
  have two: "run [NewPage, UnpinPage 0 False] ?s0 = Some (Inr ?s2)"
    by (simp add: pool_defs)
  have rest: "run (replicate 2147483647 (UnpinPage 0 False)) ?s2 =
      Some (Inr (?s2\<lparr>pages := (pages ?s2)[0 := (pages ?s2 ! 0)
                           \<lparr>pin_count := pin_count (pages ?s2 ! 0) - of_nat 2147483647\<rparr>]\<rparr>))"
    by (rule UnpinPage_repeat) simp_all
  have "(2147483648::nat) = Suc 2147483647" by simp
  then have "NewPage # replicate 2147483648 (UnpinPage 0 False) =
             [NewPage, UnpinPage 0 False] @ replicate 2147483647 (UnpinPage 0 False)"
    by (simp only: replicate_Suc append_Cons append_Nil)
  then show ?thesis using two rest by (simp only: run_append) (simp add: INT_MIN_def)
qed

text \<open>
  Claim C10, amended. \<open>UnpinPage\<close> of a page that is resident in frame \<open>f\<close> (a frame
  of the pool, as \<open>pool_wf_resident\<close> gives for every state the pool can reach) whose
  pin count is not \<open>INT_MIN\<close>, the least value of the 32-bit counter, returns true
  without a fault, whatever the argument \<^verbatim>\<open>is_dirty\<close>: the replacer afterwards is
  the result of \<open>Unpin f\<close>, and the pin count of the frame, read as a signed number,
  is one less than before, negative when it was 0. The witness is the frame that
  \<open>NewPage\<close> has just handed out with pin count 0: its pin count becomes \<open>- 1\<close>.
\<close>

theorem UnpinPage_resident:
  assumes "page_table s p = Some f" and "f < length (pages s)" and "f < length (rb (replacer s))"
    and "pin_count (pages s ! f) \<noteq> INT_MIN"
  shows "\<exists>r s'. Unpin f (replacer s) = Inr r \<and>
           UnpinPageImpl p dirty s = Inr (True, s') \<and>
           s' = s\<lparr>replacer := r,
                  pages := (pages s)[f := (pages s ! f)\<lparr>pin_count := pin_count (pages s ! f) - 1\<rparr>]\<rparr> \<and>
           sint (pin_count (pages s' ! f)) = sint (pin_count (pages s ! f)) - 1"
  using assms by (simp add: UnpinPageImpl_def Unpin_def Let_def sub_one_def sint_sub_one)

theorem UnpinPage_resident_witness:
  "case run [NewPage] (BufferPoolManager_new 1 DiskManager_new) of
     Some (Inr s) \<Rightarrow>
       page_table s 0 = Some 0 \<and> pin_count (pages s ! 0) = 0 \<and>
       (case UnpinPageImpl 0 False s of
          Inr (b, s') \<Rightarrow> b \<and> pin_count (pages s' ! 0) = - 1 \<and> sint (pin_count (pages s' ! 0)) = - 1
        | _ \<Rightarrow> False)
   | _ \<Rightarrow> False"
proof -
  obtain s where s: "run [NewPage] (BufferPoolManager_new 1 DiskManager_new) = Some (Inr s)"
    and h: "page_table s 0 = Some 0" "0 < length (pages s)" "0 < length (rb (replacer s))"
      "pin_count (pages s ! 0) \<noteq> INT_MIN" "pin_count (pages s ! 0) = 0"
    by (simp add: pool_defs)
  obtain r s' where s': "UnpinPageImpl 0 False s = Inr (True, s')"
      "s' = s\<lparr>replacer := r,
              pages := (pages s)[0 := (pages s ! 0)\<lparr>pin_count := pin_count (pages s ! 0) - 1\<rparr>]\<rparr>"
      "sint (pin_count (pages s' ! 0)) = sint (pin_count (pages s ! 0)) - 1"
    using UnpinPage_resident[OF h(1,2,3,4), of False] by blast
  have "pin_count (pages s' ! 0) = - 1" using s'(2) h(2,5) by simp
  then show ?thesis using s h s' by simp
qed

text \<open>
  Claim C10 as it is stated, for every pin count, fails at \<open>INT_MIN\<close>: in the state
  that \<open>NewPage\<close> and \<open>2^31\<close> calls of \<open>UnpinPage 0\<close> leave behind (lemma
  \<open>UnpinPage_INT_MIN_reachable\<close>), \<^verbatim>\<open>pin_count_ -= 1\<close> overflows the signed counter
  and the call does not return true with a pin count one less.
\<close>

theorem UnpinPage_overflows_at_INT_MIN:
  "UnpinPageImpl 0 False
     \<lparr>pool_size = 1,
      pages = [\<lparr>page_id = 0, pin_count = INT_MIN, is_dirty = False, data = zero_data\<rparr>],
      replacer = \<lparr>num_pages = 1, clock_hand = 0,
                   rb = [\<lparr>is_in = True, chances = 1\<rparr>], real_size = 1\<rparr>,
      free_list = [], page_table = [0 \<mapsto> 0],
      disk_manager = \<lparr>next_page_id = 1, blocks = (\<lambda>_. zero_data),
                       calls = [AllocatePageCall]\<rparr>\<rparr> = Inl SignedOverflow"
  by (simp add: UnpinPageImpl_def Unpin_def sub_one_def)

end
